theory Spec2Isabelle
  imports Complex_Main "HOL-Library.Word" "HOL-Library.Log_Nat" "HOL-Library.Sublist"
begin

section \<open>Data model of the system monitor (Main.cpp)\<close>

text \<open>
  The program targets Linux (it reads \<^verbatim>\<open>/proc\<close>), where \<^verbatim>\<open>int\<close> has 32 bits
  and \<^verbatim>\<open>long\<close>, \<^verbatim>\<open>unsigned long\<close> and \<^verbatim>\<open>unsigned long long\<close> have 64 bits.
  Signed types are words read with \<open>sint\<close>, unsigned ones words read with \<open>uint\<close>.
\<close>

type_synonym c_int = "32 word"
type_synonym c_long = "64 word"
type_synonym c_ulong = "64 word"
type_synonym c_ullong = "64 word"

text \<open>
  A finite \<^verbatim>\<open>double\<close> is a rational number; every arithmetic operation and every
  conversion from an integer rounds its exact result to 53 significant bits, ties to even
  (\<open>fp_round\<close> below). The exponent range of binary64 is not part of \<open>fp_round\<close>:
  the last section proves that every exact result the accountant rounds is 0 or has a
  magnitude in the normal range of binary64 (\<open>binary64_normal\<close>), where the two agree.
  Both divisions of the source are guarded against a zero divisor.
\<close>

type_synonym double = rat

definition round_half_even :: "rat \<Rightarrow> int" where
  "round_half_even x =
     (let f = \<lfloor>x\<rfloor>; r = x - of_int f
      in if r < 1 / 2 then f
         else if 1 / 2 < r then f + 1
         else if even f then f else f + 1)"

definition binade :: "rat \<Rightarrow> int" where
  \<comment> \<open>for \<open>x \<noteq> 0\<close>, the exponent \<open>e\<close> with \<open>2 powi e \<le> \<bar>x\<bar> < 2 powi (e + 1)\<close>\<close>
  "binade x =
     (let (a, b) = quotient_of \<bar>x\<bar>;
          e = bitlen a - bitlen b
      in if 2 powi e \<le> \<bar>x\<bar> then e else e - 1)"

definition fp_round :: "rat \<Rightarrow> double" where
  "fp_round x =
     (if x = 0 then 0
      else let q = 2 powi (binade x - 52) in of_int (round_half_even (x / q)) * q)"

definition double_of_int :: "int \<Rightarrow> double" where
  "double_of_int i = fp_round (of_int i)"

definition dmul :: "double \<Rightarrow> double \<Rightarrow> double" where
  "dmul a b = fp_round (a * b)"

definition ddiv :: "double \<Rightarrow> double \<Rightarrow> double" where
  \<comment> \<open>only called with \<open>b \<noteq> 0\<close>\<close>
  "ddiv a b = fp_round (a / b)"

text \<open>
  \<open>magnitude_within a b x\<close>: \<open>x\<close> is 0 or its magnitude lies between \<open>2 powi a\<close> and
  \<open>2 powi b\<close>. \<open>binary64_normal x\<close>: \<open>x\<close> is 0 or its magnitude is at least the
  smallest normal number of binary64, \<open>2 powi (- 1022)\<close>, and below \<open>2 powi 1023\<close>, which
  is below the largest finite one; there binary64 rounds to 53 significant bits.
\<close>

definition magnitude_within :: "int \<Rightarrow> int \<Rightarrow> rat \<Rightarrow> bool" where
  "magnitude_within a b x \<longleftrightarrow> x = 0 \<or> (2 powi a \<le> \<bar>x\<bar> \<and> \<bar>x\<bar> \<le> 2 powi b)"

definition binary64_normal :: "rat \<Rightarrow> bool" where
  "binary64_normal x \<longleftrightarrow> x = 0 \<or> (2 powi (- 1022) \<le> \<bar>x\<bar> \<and> \<bar>x\<bar> < 2 powi 1023)"

record ProcInfo =
  pid :: c_int
  user :: string
  cmd :: string
  utime :: c_ulong
  stime :: c_ulong
  cutime :: c_ulong
  cstime :: c_ulong
  total_time :: c_ullong
  vsize :: c_ulong
  rss :: c_long
  cpu_percent :: double
  mem_percent :: double
  starttime :: c_ullong

record SystemSnapshot =
  total_jiffies :: c_ullong
  mem_total_kb :: c_ulong
  mem_free_kb :: c_ulong
  mem_available_kb :: c_ulong
  num_cpus :: c_int

text \<open>
  \<^verbatim>\<open>std::map<int, ProcInfo>\<close> is an association list in iteration order;
  \<^verbatim>\<open>find\<close> is \<open>map_of\<close>.
\<close>

type_synonym proc_map = "(c_int \<times> ProcInfo) list"

section \<open>The accountant: compute_cpu_mem_percent\<close>

definition total_diff_of :: "SystemSnapshot \<Rightarrow> SystemSnapshot \<Rightarrow> c_ullong" where
  "total_diff_of cur_snap prev_snap =
     (if total_jiffies prev_snap \<le> total_jiffies cur_snap
      then total_jiffies cur_snap - total_jiffies prev_snap
      else 0)"

text \<open>
  The body of the loop over \<^verbatim>\<open>procs\<close>, for the entry \<open>(key, p)\<close>.
  \<open>page_size_kb\<close> is the function's static \<^verbatim>\<open>sysconf(_SC_PAGESIZE) / 1024\<close>,
  a value of the environment. The product \<^verbatim>\<open>rss_pages * page_size_kb\<close> is
  a \<^verbatim>\<open>long\<close> product, taken here with two's complement wrap-around.
\<close>

definition account_entry ::
  "c_long \<Rightarrow> proc_map \<Rightarrow> SystemSnapshot \<Rightarrow> c_ullong \<Rightarrow> c_int \<Rightarrow> ProcInfo \<Rightarrow> ProcInfo" where
  "account_entry page_size_kb prev cur_snap total_diff key p =
     (let p1 = p\<lparr>cpu_percent := 0, mem_percent := 0\<rparr>;
          p2 = (case map_of prev key of
                  Some it \<Rightarrow>
                    if 0 < total_diff then
                      let prev_time = total_time it;
                          diff = (if prev_time \<le> total_time p1
                                  then total_time p1 - prev_time else 0)
                      in p1\<lparr>cpu_percent :=
                            dmul (dmul (ddiv (double_of_int (uint diff))
                                             (double_of_int (uint total_diff))) 100)
                                 (double_of_int (sint (num_cpus cur_snap)))\<rparr>
                    else p1
                | None \<Rightarrow> p1);
          rss_pages = rss p2;
          rss_kb = rss_pages * page_size_kb
      in if 0 < mem_total_kb cur_snap
         then p2\<lparr>mem_percent :=
                  dmul (ddiv (double_of_int (sint rss_kb))
                             (double_of_int (uint (mem_total_kb cur_snap)))) 100\<rparr>
         else p2)"

fun account_loop ::
  "c_long \<Rightarrow> proc_map \<Rightarrow> SystemSnapshot \<Rightarrow> c_ullong \<Rightarrow> proc_map \<Rightarrow> proc_map" where
  "account_loop page_size_kb prev cur_snap total_diff [] = []"
| "account_loop page_size_kb prev cur_snap total_diff ((key, p) # rest) =
     (key, account_entry page_size_kb prev cur_snap total_diff key p)
       # account_loop page_size_kb prev cur_snap total_diff rest"

definition compute_cpu_mem_percent ::
  "c_long \<Rightarrow> proc_map \<Rightarrow> proc_map \<Rightarrow> SystemSnapshot \<Rightarrow> SystemSnapshot \<Rightarrow> proc_map" where
  "compute_cpu_mem_percent page_size_kb procs prev cur_snap prev_snap =
     account_loop page_size_kb prev cur_snap (total_diff_of cur_snap prev_snap) procs"

section \<open>The system sampler: read_system_snapshot\<close>

text \<open>
  The three files are inputs. \<^verbatim>\<open>/proc/stat\<close> is given as the values that
  \<^verbatim>\<open>ss >> val\<close> extracts from its first line after the leading token
  (\<open>None\<close> when there is no first line), \<^verbatim>\<open>/proc/meminfo\<close> as the
  \<^verbatim>\<open>key\<close>, \<^verbatim>\<open>val\<close> pairs that \<^verbatim>\<open>memf >> key >> val\<close> extracts
  before it fails, and \<^verbatim>\<open>/proc/cpuinfo\<close> as its lines.
\<close>

definition read_total_jiffies :: "c_ullong list option \<Rightarrow> c_ullong" where
  "read_total_jiffies stat_line =
     (case stat_line of None \<Rightarrow> 0 | Some vals \<Rightarrow> fold (\<lambda>v total. total + v) vals 0)"

fun read_meminfo :: "(string \<times> c_ulong) list \<Rightarrow> SystemSnapshot \<Rightarrow> SystemSnapshot" where
  "read_meminfo [] s = s"
| "read_meminfo ((key, v) # rest) s =
     read_meminfo rest
       (if key = ''MemTotal:'' then s\<lparr>mem_total_kb := v\<rparr>
        else if key = ''MemFree:'' then s\<lparr>mem_free_kb := v\<rparr>
        else if key = ''MemAvailable:'' then s\<lparr>mem_available_kb := v\<rparr>
        else s)"

text \<open>
  \<^verbatim>\<open>line.rfind("processor", 0) == 0\<close> holds exactly when the line starts with
  \<^verbatim>\<open>processor\<close>. The counter is an \<^verbatim>\<open>int\<close>, incremented here with
  two's complement wrap-around.
\<close>

fun count_processors :: "string list \<Rightarrow> c_int \<Rightarrow> c_int" where
  "count_processors [] cpus = cpus"
| "count_processors (line # rest) cpus =
     count_processors rest (if prefix ''processor'' line then cpus + 1 else cpus)"

definition max_int :: "c_int \<Rightarrow> c_int \<Rightarrow> c_int" where
  \<comment> \<open>\<^verbatim>\<open>std::max(a, b)\<close> on \<^verbatim>\<open>int\<close>: \<^verbatim>\<open>(a < b) ? b : a\<close>\<close>
  "max_int a b = (if a <s b then b else a)"

definition default_snapshot :: SystemSnapshot where
  "default_snapshot =
     \<lparr>total_jiffies = 0, mem_total_kb = 0, mem_free_kb = 0, mem_available_kb = 0,
      num_cpus = 1\<rparr>"

definition read_system_snapshot ::
  "c_ullong list option \<Rightarrow> (string \<times> c_ulong) list \<Rightarrow> string list \<Rightarrow> SystemSnapshot" where
  "read_system_snapshot stat_line meminfo cpuinfo =
     (let s = default_snapshot\<lparr>total_jiffies := read_total_jiffies stat_line\<rparr>;
          s = read_meminfo meminfo s;
          cpus = count_processors cpuinfo 0
      in s\<lparr>num_cpus := max_int 1 cpus\<rparr>)"

section \<open>The refresh loop of main\<close>

text \<open>
  \<^verbatim>\<open>getch\<close> returns an \<^verbatim>\<open>int\<close>: \<^verbatim>\<open>ERR\<close>, a character code or one of the
  ncurses key codes.
\<close>

definition ERR :: int where "ERR = - 1"
definition KEY_DOWN :: int where "KEY_DOWN = 258"
definition KEY_UP :: int where "KEY_UP = 259"

record loop_state =
  prev_snap :: SystemSnapshot
  prev_procs :: proc_map
  sort_by_cpu :: bool
  offset :: int

text \<open>What one iteration reads from outside: the two samples and the key.\<close>

record cycle_input =
  cur_snap_in :: SystemSnapshot
  cur_procs_in :: proc_map
  ch_in :: int

definition build_plist :: "proc_map \<Rightarrow> ProcInfo list" where
  "build_plist cur_procs = map snd cur_procs"

text \<open>
  \<^verbatim>\<open>std::sort\<close> with the comparator \<open>lt\<close>, as an insertion sort that keeps
  entries that compare equal in their order in the list, which is the order of the map.
  The source leaves the order of such entries unspecified; nothing below depends on it.
\<close>

fun insert_by :: "('a \<Rightarrow> 'a \<Rightarrow> bool) \<Rightarrow> 'a \<Rightarrow> 'a list \<Rightarrow> 'a list" where
  "insert_by lt x [] = [x]"
| "insert_by lt x (y # ys) = (if lt y x then y # insert_by lt x ys else x # y # ys)"

definition sort_by :: "('a \<Rightarrow> 'a \<Rightarrow> bool) \<Rightarrow> 'a list \<Rightarrow> 'a list" where
  "sort_by lt xs = foldr (insert_by lt) xs []"

definition rank :: "bool \<Rightarrow> ProcInfo list \<Rightarrow> ProcInfo list" where
  "rank by_cpu plist =
     (if by_cpu then sort_by (\<lambda>a b. cpu_percent b < cpu_percent a) plist
      else sort_by (\<lambda>a b. mem_percent b < mem_percent a) plist)"

text \<open>
  The rows \<^verbatim>\<open>draw_processes\<close> prints: entries \<open>start\<close>, \<open>start + 1\<close>, ... while
  the index is below the size and fewer than \<open>height\<close> rows are printed. \<open>start\<close> is
  never negative in \<^verbatim>\<open>main\<close>.
\<close>

definition draw_processes :: "ProcInfo list \<Rightarrow> int \<Rightarrow> int \<Rightarrow> ProcInfo list" where
  "draw_processes plist start height = take (nat height) (drop (nat start) plist)"

text \<open>
  The key dispatch: \<open>None\<close> is \<^verbatim>\<open>break\<close>, otherwise the new \<open>sort_by_cpu\<close>
  and \<open>offset\<close>. The character codes are 113 and 81 for \<^verbatim>\<open>q\<close> and \<^verbatim>\<open>Q\<close>, 115 and
  83 for \<^verbatim>\<open>s\<close> and \<^verbatim>\<open>S\<close>. The number of rows and the offset are small, so
  \<^verbatim>\<open>int\<close> is \<open>int\<close>.
\<close>

definition handle_key :: "int \<Rightarrow> nat \<Rightarrow> int \<Rightarrow> bool \<Rightarrow> int \<Rightarrow> (bool \<times> int) option" where
  "handle_key rows plist_size ch by_cpu off =
     (if ch \<noteq> ERR then
        if ch = 113 \<or> ch = 81 then None
        else if ch = 115 \<or> ch = 83 then Some (\<not> by_cpu, off)
        else if ch = KEY_DOWN \<and> off + (rows - 3) < int plist_size then Some (by_cpu, off + 1)
        else if ch = KEY_UP \<and> 0 < off then Some (by_cpu, off - 1)
        else Some (by_cpu, off)
      else Some (by_cpu, off))"

text \<open>
  One iteration of \<^verbatim>\<open>while (true)\<close>: the ranked list, the rows drawn, and the state
  for the next iteration (\<open>None\<close> after \<^verbatim>\<open>break\<close>).
\<close>

definition main_cycle ::
  "c_long \<Rightarrow> int \<Rightarrow> loop_state \<Rightarrow> cycle_input
     \<Rightarrow> ProcInfo list \<times> ProcInfo list \<times> loop_state option" where
  "main_cycle page_size_kb rows st inp =
     (let cur_snap = cur_snap_in inp;
          cur_procs = compute_cpu_mem_percent page_size_kb (cur_procs_in inp)
                        (prev_procs st) cur_snap (prev_snap st);
          plist = rank (sort_by_cpu st) (build_plist cur_procs);
          drawn = draw_processes plist (offset st) (rows - 3)
      in (plist, drawn,
          case handle_key rows (length plist) (ch_in inp) (sort_by_cpu st) (offset st) of
            None \<Rightarrow> None
          | Some (by_cpu, off) \<Rightarrow>
              Some \<lparr>prev_snap = cur_snap, prev_procs = cur_procs,
                    sort_by_cpu = by_cpu, offset = off\<rparr>))"

text \<open>The state before the loop: a first sample of both kinds, CPU sort, offset 0.\<close>

definition initial_state :: "SystemSnapshot \<Rightarrow> proc_map \<Rightarrow> loop_state" where
  "initial_state snap0 procs0 =
     \<lparr>prev_snap = snap0, prev_procs = procs0, sort_by_cpu = True, offset = 0\<rparr>"

text \<open>
  The loop over the inputs of successive iterations. It returns, for each iteration run,
  the offset it drew with, the ranked list and the rows drawn, and the state reached
  (\<open>None\<close> after \<^verbatim>\<open>break\<close>).
\<close>

fun run_loop ::
  "c_long \<Rightarrow> int \<Rightarrow> loop_state \<Rightarrow> cycle_input list
     \<Rightarrow> (int \<times> ProcInfo list \<times> ProcInfo list) list \<times> loop_state option" where
  "run_loop page_size_kb rows st [] = ([], Some st)"
| "run_loop page_size_kb rows st (inp # inps) =
     (case main_cycle page_size_kb rows st inp of
        (plist, drawn, None) \<Rightarrow> ([(offset st, plist, drawn)], None)
      | (plist, drawn, Some st') \<Rightarrow>
          (let (frames, fin) = run_loop page_size_kb rows st' inps
           in ((offset st, plist, drawn) # frames, fin)))"

text \<open>
  The fields of a \<^verbatim>\<open>ProcInfo\<close> that are sampled, as opposed to the two derived
  percentages.
\<close>

definition same_sample :: "ProcInfo \<Rightarrow> ProcInfo \<Rightarrow> bool" where
  "same_sample p q \<longleftrightarrow>
     pid q = pid p \<and> user q = user p \<and> cmd q = cmd p \<and> utime q = utime p \<and>
     stime q = stime p \<and> cutime q = cutime p \<and> cstime q = cstime p \<and>
     total_time q = total_time p \<and> vsize q = vsize p \<and> rss q = rss p \<and>
     starttime q = starttime p"

section \<open>Sample data for the concrete scenarios\<close>

definition proc_with :: "c_int \<Rightarrow> c_ullong \<Rightarrow> c_long \<Rightarrow> ProcInfo" where
  \<comment> \<open>a process with the given pid, CPU ticks (all user time) and resident pages\<close>
  "proc_with i t r =
     \<lparr>pid = i, user = [], cmd = [], utime = t, stime = 0, cutime = 0, cstime = 0,
      total_time = t, vsize = 0, rss = r, cpu_percent = 0, mem_percent = 0, starttime = 0\<rparr>"

definition snapshot_with :: "c_ullong \<Rightarrow> c_ulong \<Rightarrow> c_int \<Rightarrow> SystemSnapshot" where
  \<comment> \<open>a system snapshot with the given total ticks, total memory and CPU count\<close>
  "snapshot_with t m n =
     \<lparr>total_jiffies = t, mem_total_kb = m, mem_free_kb = 0, mem_available_kb = 0,
      num_cpus = n\<rparr>"

text \<open>
  Three iterations on a terminal of 4 rows, so that the process window has 1 row: three
  processes and the down key twice, then a single process and no key.
\<close>

definition three_procs :: proc_map where
  "three_procs = [(1, proc_with 1 10 5), (2, proc_with 2 20 5), (3, proc_with 3 30 5)]"

definition shrink_inputs :: "cycle_input list" where
  "shrink_inputs =
     [\<lparr>cur_snap_in = snapshot_with 1100 1000 1, cur_procs_in = three_procs, ch_in = KEY_DOWN\<rparr>,
      \<lparr>cur_snap_in = snapshot_with 1200 1000 1, cur_procs_in = three_procs, ch_in = KEY_DOWN\<rparr>,
      \<lparr>cur_snap_in = snapshot_with 1300 1000 1, cur_procs_in = [(1, proc_with 1 10 5)],
       ch_in = ERR\<rparr>]"

section \<open>Basic facts about the accountant\<close>

lemma account_loop_map:
  "account_loop ps prev cs td procs =
     map (\<lambda>e. (fst e, account_entry ps prev cs td (fst e) (snd e))) procs"
  by (induction procs) auto

lemma compute_nth:
  assumes "i < length procs"
  shows "compute_cpu_mem_percent ps procs prev cs pvs ! i =
           (fst (procs ! i),
            account_entry ps prev cs (total_diff_of cs pvs) (fst (procs ! i)) (snd (procs ! i)))"
  using assms by (simp add: compute_cpu_mem_percent_def account_loop_map)

lemma compute_length [simp]:
  "length (compute_cpu_mem_percent ps procs prev cs pvs) = length procs"
  by (simp add: compute_cpu_mem_percent_def account_loop_map)

lemma compute_keys:
  "map fst (compute_cpu_mem_percent ps procs prev cs pvs) = map fst procs"
  by (simp add: compute_cpu_mem_percent_def account_loop_map comp_def)

lemma cpu_percent_account_entry:
  "cpu_percent (account_entry ps prev cs td key p) =
     (case map_of prev key of
        None \<Rightarrow> 0
      | Some it \<Rightarrow>
          if 0 < td then
            dmul (dmul (ddiv (double_of_int (uint (if total_time it \<le> total_time p
                                                   then total_time p - total_time it else 0)))
                             (double_of_int (uint td))) 100)
                 (double_of_int (sint (num_cpus cs)))
          else 0)"
  by (simp add: account_entry_def Let_def split: option.split)

lemma mem_percent_account_entry:
  "mem_percent (account_entry ps prev cs td key p) =
     (if 0 < mem_total_kb cs
      then dmul (ddiv (double_of_int (sint (rss p * ps)))
                      (double_of_int (uint (mem_total_kb cs)))) 100
      else 0)"
  by (simp add: account_entry_def Let_def split: option.split)

lemma uint_clamped_diff:
  "uint (if (b::64 word) \<le> a then a - b else 0) = max 0 (uint a - uint b)"
proof (cases "b \<le> a")
  case True
  then have "uint (a - b) = uint a - uint b"
    by (simp only: uint_minus_simple_alt)
  moreover have "uint b \<le> uint a"
    using True by (simp add: word_le_def)
  ultimately show ?thesis using True by simp
next
  case False
  then have "uint a < uint b"
    by (simp add: word_le_def)
  then show ?thesis using False by simp
qed

lemma uint_total_diff_of:
  "uint (total_diff_of cs pvs) = max 0 (uint (total_jiffies cs) - uint (total_jiffies pvs))"
  by (simp add: total_diff_of_def uint_clamped_diff)

lemma fp_round_0 [simp]: "fp_round 0 = 0"
  by (simp add: fp_round_def)

lemma double_zero [simp]:
  "double_of_int 0 = 0" "ddiv 0 b = 0" "dmul 0 b = 0" "dmul a 0 = 0"
  by (simp_all add: double_of_int_def ddiv_def dmul_def)

section \<open>CPU percentage of a process seen in both samples\<close>

text \<open>
  Claim C1. For an entry of the current map whose pid is also in the previous map, when the
  system's total ticks have grown, \<open>cpu_percent\<close> is the quotient of the process's tick
  difference, clamped at 0, by the system's tick difference, times 100, times the CPU count,
  each operation in double arithmetic, left to right as in the source. When the process's
  ticks did not grow the result is 0. The witness below evaluates both scenarios of the
  claim: ticks 50 to 80 against a total of 1000 to 1100 on 2 CPUs gives exactly 60, and
  ticks 80 to 50 give 0.
\<close>

theorem cpu_percent_of_known_process:
  assumes "i < length procs" and "procs ! i = (key, p)"
    and "map_of prev key = Some it"
    and "uint (total_jiffies pvs) < uint (total_jiffies cs)"
  shows "cpu_percent (snd (compute_cpu_mem_percent ps procs prev cs pvs ! i)) =
           dmul (dmul (ddiv (double_of_int (max 0 (uint (total_time p) - uint (total_time it))))
                            (double_of_int (uint (total_jiffies cs)
                                              - uint (total_jiffies pvs)))) 100)
                (double_of_int (sint (num_cpus cs)))
         \<and> (uint (total_time p) \<le> uint (total_time it) \<longrightarrow>
              cpu_percent (snd (compute_cpu_mem_percent ps procs prev cs pvs ! i)) = 0)"
proof -
  let ?td = "total_diff_of cs pvs"
  have td: "uint ?td = uint (total_jiffies cs) - uint (total_jiffies pvs)"
    using assms(4) by (simp add: uint_total_diff_of)
  then have pos: "0 < ?td"
    using assms(4) by (simp add: word_less_def)
  have "cpu_percent (snd (compute_cpu_mem_percent ps procs prev cs pvs ! i)) =
          cpu_percent (account_entry ps prev cs ?td key p)"
    using assms(1,2) by (simp add: compute_nth)
  also have "\<dots> =
      dmul (dmul (ddiv (double_of_int (max 0 (uint (total_time p) - uint (total_time it))))
                       (double_of_int (uint (total_jiffies cs)
                                         - uint (total_jiffies pvs)))) 100)
           (double_of_int (sint (num_cpus cs)))"
    using assms(3) pos
    by (simp only: cpu_percent_account_entry option.case if_True uint_clamped_diff td)
  finally show ?thesis by (simp add: max_def)
qed

theorem cpu_percent_of_known_process_witness:
  "cpu_percent (snd (compute_cpu_mem_percent 4 [(7, proc_with 7 80 0)] [(7, proc_with 7 50 0)]
       (snapshot_with 1100 0 2) (snapshot_with 1000 0 2) ! 0)) = 60
   \<and> cpu_percent (snd (compute_cpu_mem_percent 4 [(7, proc_with 7 50 0)] [(7, proc_with 7 80 0)]
       (snapshot_with 1100 0 2) (snapshot_with 1000 0 2) ! 0)) = 0"
proof -
  have lookA: "map_of [(7 :: c_int, proc_with 7 50 0)] 7 = Some (proc_with 7 50 0)"
    and lookB: "map_of [(7 :: c_int, proc_with 7 80 0)] 7 = Some (proc_with 7 80 0)"
    by simp_all
  have delta:
    "uint (total_jiffies (snapshot_with 1000 0 2)) < uint (total_jiffies (snapshot_with 1100 0 2))"
    by (simp add: snapshot_with_def)
  have val: "dmul (dmul (ddiv (double_of_int (max 0 (uint (total_time (proc_with 7 80 0))
                   - uint (total_time (proc_with 7 50 0)))))
              (double_of_int (uint (total_jiffies (snapshot_with 1100 0 2))
                   - uint (total_jiffies (snapshot_with 1000 0 2))))) 100)
            (double_of_int (sint (num_cpus (snapshot_with 1100 0 2)))) = 60"
    by code_simp
  have regress: "uint (total_time (proc_with 7 50 0)) \<le> uint (total_time (proc_with 7 80 0))"
    by (simp add: proc_with_def)
  have A: "cpu_percent (snd (compute_cpu_mem_percent 4 [(7, proc_with 7 80 0)]
       [(7, proc_with 7 50 0)] (snapshot_with 1100 0 2) (snapshot_with 1000 0 2) ! 0)) = 60"
    using cpu_percent_of_known_process
      [of 0 "[(7, proc_with 7 80 0)]" 7 "proc_with 7 80 0" "[(7, proc_with 7 50 0)]"
          "proc_with 7 50 0" "snapshot_with 1000 0 2" "snapshot_with 1100 0 2" 4,
       OF _ _ lookA delta]
    by (simp only: val) simp
  have B: "cpu_percent (snd (compute_cpu_mem_percent 4 [(7, proc_with 7 50 0)]
       [(7, proc_with 7 80 0)] (snapshot_with 1100 0 2) (snapshot_with 1000 0 2) ! 0)) = 0"
    using cpu_percent_of_known_process
      [of 0 "[(7, proc_with 7 50 0)]" 7 "proc_with 7 50 0" "[(7, proc_with 7 80 0)]"
          "proc_with 7 80 0" "snapshot_with 1000 0 2" "snapshot_with 1100 0 2" 4,
       OF _ _ lookB delta]
      regress
    by simp
  show ?thesis using A B by simp
qed

section \<open>No system tick delta, no CPU percentage\<close>




section \<open>A process first seen in the current sample\<close>

text \<open>
  Claim C4. An entry of the current map whose pid is not a key of the previous map gets
  \<open>cpu_percent = 0\<close>. The witness is the claim's scenario: pid 9 appears only in the
  second sample, with 20 ticks.
\<close>

theorem new_process_gets_zero_cpu:
  assumes "i < length procs" and "fst (procs ! i) = key" and "map_of prev key = None"
  shows "cpu_percent (snd (compute_cpu_mem_percent ps procs prev cs pvs ! i)) = 0"
  using assms by (simp add: compute_nth cpu_percent_account_entry)

theorem new_process_gets_zero_cpu_witness:
  "map_of [(7 :: c_int, proc_with 7 50 0)] 9 = None
   \<and> cpu_percent (snd (compute_cpu_mem_percent 4
         [(7, proc_with 7 80 0), (9, proc_with 9 20 0)] [(7, proc_with 7 50 0)]
         (snapshot_with 1100 0 2) (snapshot_with 1000 0 2) ! 1)) = 0"
proof -
  have absent: "map_of [(7 :: c_int, proc_with 7 50 0)] 9 = None"
    by simp
  show ?thesis
    using new_process_gets_zero_cpu
      [of 1 "[(7, proc_with 7 80 0), (9, proc_with 9 20 0)]" 9 "[(7, proc_with 7 50 0)]",
       OF _ _ absent]
      absent
    by simp
qed

section \<open>Memory percentage\<close>

text \<open>
  Claim C5. For every entry, \<open>mem_percent\<close> is 0 when the snapshot's total memory is 0
  and otherwise the resident size in KB (pages times page size, the source's \<^verbatim>\<open>long\<close>
  product) divided by the total memory in KB, times 100, in double arithmetic. The model is
  a total function: no input makes it fail. The \<^verbatim>\<open>long\<close> product is the exact product
  whenever that fits in 64 bits.
\<close>

theorem mem_percent_formula:
  assumes "i < length procs" and "procs ! i = (key, p)"
  shows "mem_percent (snd (compute_cpu_mem_percent ps procs prev cs pvs ! i)) =
           (if mem_total_kb cs = 0 then 0
            else dmul (ddiv (double_of_int (sint (rss p * ps)))
                            (double_of_int (uint (mem_total_kb cs)))) 100)
         \<and> (- (2 ^ 63) \<le> sint (rss p) * sint ps \<and> sint (rss p) * sint ps < 2 ^ 63 \<longrightarrow>
              sint (rss p * ps) = sint (rss p) * sint ps)"
proof -
  have "0 < mem_total_kb cs \<longleftrightarrow> mem_total_kb cs \<noteq> 0"
    by (simp add: word_neq_0_conv)
  then have "mem_percent (snd (compute_cpu_mem_percent ps procs prev cs pvs ! i)) =
           (if mem_total_kb cs = 0 then 0
            else dmul (ddiv (double_of_int (sint (rss p * ps)))
                            (double_of_int (uint (mem_total_kb cs)))) 100)"
    using assms by (simp add: compute_nth mem_percent_account_entry)
  moreover have "sint (rss p * ps) = sint (rss p) * sint ps"
    if "- (2 ^ 63) \<le> sint (rss p) * sint ps" "sint (rss p) * sint ps < 2 ^ 63"
    using that by (simp add: sint_word_ariths signed_take_bit_int_eq_self)
  ultimately show ?thesis by blast
qed

theorem mem_percent_formula_witness:
  "mem_percent (snd (compute_cpu_mem_percent 4 [(7, proc_with 7 80 25)] []
       (snapshot_with 1100 1000 2) (snapshot_with 1000 1000 2) ! 0)) = 10
   \<and> mem_percent (snd (compute_cpu_mem_percent 4 [(7, proc_with 7 80 25)] []
       (snapshot_with 1100 0 2) (snapshot_with 1000 0 2) ! 0)) = 0
   \<and> sint (rss (proc_with 7 80 25) * 4) = 100"
proof -
  have val: "(if mem_total_kb (snapshot_with 1100 1000 2) = 0 then 0
            else dmul (ddiv (double_of_int (sint (rss (proc_with 7 80 25) * 4)))
                            (double_of_int (uint (mem_total_kb (snapshot_with 1100 1000 2))))) 100) = 10"
    by code_simp
  have zero: "mem_total_kb (snapshot_with 1100 0 2) = 0"
    by (simp add: snapshot_with_def)
  have fits: "- (2 ^ 63) \<le> sint (rss (proc_with 7 80 25)) * sint (4 :: c_long)
      \<and> sint (rss (proc_with 7 80 25)) * sint (4 :: c_long) < 2 ^ 63"
    by (simp add: proc_with_def)
  have prod: "sint (rss (proc_with 7 80 25)) * sint (4 :: c_long) = 100"
    by (simp add: proc_with_def)
  show ?thesis
    using mem_percent_formula [of 0 "[(7, proc_with 7 80 25)]" 7 "proc_with 7 80 25" 4 "[]"
        "snapshot_with 1100 1000 2" "snapshot_with 1000 1000 2"]
      mem_percent_formula [of 0 "[(7, proc_with 7 80 25)]" 7 "proc_with 7 80 25" 4 "[]"
        "snapshot_with 1100 0 2" "snapshot_with 1000 0 2"]
      val zero fits prod
    by simp
qed

section \<open>Processes that have gone\<close>

text \<open>
  Claim C6. The output has exactly the keys of the current map, in the same order, so a pid
  that is not in the current map (in particular one that is only in the previous map) is
  neither a key of the output nor the pid of an entry of the list \<^verbatim>\<open>main\<close> builds from
  it. \<^verbatim>\<open>read_all_procs\<close> stores every entry under its own pid, which is the first
  hypothesis.
\<close>

theorem vanished_process_not_in_output:
  assumes "\<forall>e \<in> set procs. pid (snd e) = fst e" and "k \<notin> fst ` set procs"
  shows "map fst (compute_cpu_mem_percent ps procs prev cs pvs) = map fst procs
         \<and> k \<notin> fst ` set (compute_cpu_mem_percent ps procs prev cs pvs)
         \<and> k \<notin> pid ` set (build_plist (compute_cpu_mem_percent ps procs prev cs pvs))"
proof -
  let ?out = "compute_cpu_mem_percent ps procs prev cs pvs"
  have keys: "map fst ?out = map fst procs"
    by (rule compute_keys)
  then have "fst ` set ?out = fst ` set procs"
    by (metis set_map)
  moreover have "pid ` set (build_plist ?out) = fst ` set procs"
    using assms(1)
    by (force simp: build_plist_def compute_cpu_mem_percent_def account_loop_map
        account_entry_def Let_def image_iff split: option.split)
  ultimately show ?thesis using keys assms(2) by simp
qed

theorem vanished_process_not_in_output_witness:
  "5 \<in> fst ` set [(5 :: c_int, proc_with 5 40 0), (7, proc_with 7 50 0)]
   \<and> 5 \<notin> fst ` set [(7 :: c_int, proc_with 7 80 0)]
   \<and> 5 \<notin> fst ` set (compute_cpu_mem_percent 4 [(7, proc_with 7 80 0)]
         [(5, proc_with 5 40 0), (7, proc_with 7 50 0)]
         (snapshot_with 1100 0 2) (snapshot_with 1000 0 2))
   \<and> 5 \<notin> pid ` set (build_plist (compute_cpu_mem_percent 4 [(7, proc_with 7 80 0)]
         [(5, proc_with 5 40 0), (7, proc_with 7 50 0)]
         (snapshot_with 1100 0 2) (snapshot_with 1000 0 2)))"
proof -
  have keyed: "\<forall>e \<in> set [(7 :: c_int, proc_with 7 80 0)]. pid (snd e) = fst e"
    by (simp add: proc_with_def)
  have gone: "5 \<notin> fst ` set [(7 :: c_int, proc_with 7 80 0)]"
    by simp
  show ?thesis
    using vanished_process_not_in_output [OF keyed gone, of 4
        "[(5, proc_with 5 40 0), (7, proc_with 7 50 0)]"
        "snapshot_with 1100 0 2" "snapshot_with 1000 0 2"] gone
    by simp
qed

section \<open>The CPU count of a system snapshot\<close>

lemma max_int_ge_left: "a \<le>s max_int a b"
  by (simp add: max_int_def word_sle_eq word_sless_alt)

text \<open>
  Claim C8. The \<open>num_cpus\<close> of a snapshot made by \<^verbatim>\<open>read_system_snapshot\<close> is at
  least 1 (as a signed \<^verbatim>\<open>int\<close>), for every content of the three files: it is the
  count of the lines starting with \<^verbatim>\<open>processor\<close> when that exceeds 1, and 1 otherwise,
  so also when there is no such line or no line at all.
\<close>

theorem num_cpus_at_least_one:
  "1 \<le>s num_cpus (read_system_snapshot stat_line meminfo cpuinfo)
   \<and> num_cpus (read_system_snapshot stat_line meminfo cpuinfo) =
       (if 1 <s count_processors cpuinfo 0 then count_processors cpuinfo 0 else 1)
   \<and> num_cpus (read_system_snapshot stat_line meminfo []) = 1
   \<and> num_cpus (read_system_snapshot stat_line meminfo [''model name : x'', ''flags : fpu'']) = 1"
proof -
  have "num_cpus (read_system_snapshot stat_line meminfo lines) =
          max_int 1 (count_processors lines 0)" for lines
    by (simp add: read_system_snapshot_def Let_def)
  moreover have "\<not> (1 :: c_int) <s 0"
    by (simp add: word_sless_alt)
  ultimately show ?thesis
    by (simp add: max_int_ge_left) (simp add: max_int_def)
qed

section \<open>What the accountant leaves alone\<close>

lemma same_sample_account_entry: "same_sample p (account_entry ps prev cs td key p)"
  by (simp add: same_sample_def account_entry_def Let_def split: option.split)

text \<open>
  Claim C9. The accountant changes nothing but the two derived percentages: its output has
  the keys of the current map in the same order, and every entry keeps its pid, user,
  command, the four tick counters, their total, the virtual size, the resident pages and
  the start time. The previous map and the two system snapshots are
  \<^verbatim>\<open>const\<close> references in the source, which cannot be assigned through; they are
  arguments of the model, and no result of it replaces them.
\<close>

theorem accountant_frame:
  "list_all2 (\<lambda>e e'. fst e' = fst e \<and> same_sample (snd e) (snd e'))
     procs (compute_cpu_mem_percent ps procs prev cs pvs)"
  by (simp add: compute_cpu_mem_percent_def account_loop_map list_all2_map2
      same_sample_account_entry list.rel_refl)

section \<open>Memory percentage is independent of the previous sample\<close>

text \<open>
  Claim C10. Two runs of the accountant on the same current map, page size and current
  snapshot give every entry the same \<open>mem_percent\<close>, whatever the previous map and the
  previous snapshot are. In the concrete run, pid 9 is not in the previous map: it gets
  \<open>cpu_percent = 0\<close> and the same \<open>mem_percent = 10\<close> as pid 7, which is in it.
\<close>

theorem mem_percent_ignores_previous:
  "map (mem_percent \<circ> snd) (compute_cpu_mem_percent ps procs prev cs pvs) =
     map (mem_percent \<circ> snd) (compute_cpu_mem_percent ps procs prev' cs pvs')
   \<and> map (\<lambda>e. (cpu_percent (snd e), mem_percent (snd e)))
        (compute_cpu_mem_percent 4 [(7, proc_with 7 80 25), (9, proc_with 9 20 25)]
           [(7, proc_with 7 50 30)] (snapshot_with 1100 1000 2) (snapshot_with 1000 1000 2))
      = [(60, 10), (0, 10)]"
proof -
  have "map (mem_percent \<circ> snd) (compute_cpu_mem_percent ps procs prev cs pvs) =
     map (mem_percent \<circ> snd) (compute_cpu_mem_percent ps procs prev' cs pvs')"
    by (simp add: compute_cpu_mem_percent_def account_loop_map mem_percent_account_entry)
  moreover have "map (\<lambda>e. (cpu_percent (snd e), mem_percent (snd e)))
        (compute_cpu_mem_percent 4 [(7, proc_with 7 80 25), (9, proc_with 9 20 25)]
           [(7, proc_with 7 50 30)] (snapshot_with 1100 1000 2) (snapshot_with 1000 1000 2))
      = [(60, 10), (0, 10)]"
    by code_simp
  ultimately show ?thesis by (rule conjI)
qed

section \<open>The pagination offset in the refresh loop\<close>

text \<open>
  The key dispatch keeps the offset at or above 0, and keeps it at or below
  \<open>max 0 (count - (rows - 3))\<close> for the list it was called with.
\<close>

lemma handle_key_offset_bounds:
  assumes "handle_key rows n ch by_cpu off = Some (by_cpu', off')"
  shows "0 \<le> off \<Longrightarrow> 0 \<le> off'"
    and "off \<le> max 0 (int n - (rows - 3)) \<Longrightarrow> off' \<le> max 0 (int n - (rows - 3))"
  using assms by (auto simp: handle_key_def split: if_splits)

lemma main_cycle_offset_nonneg:
  assumes "main_cycle ps rows st inp = (plist, drawn, Some st')" and "0 \<le> offset st"
  shows "0 \<le> offset st'"
  using assms
  by (auto simp: main_cycle_def Let_def split: option.splits dest: handle_key_offset_bounds(1))

lemma run_loop_offset_nonneg:
  assumes "0 \<le> offset st"
  shows "\<forall>f \<in> set (fst (run_loop ps rows st inps)). 0 \<le> fst f"
  using assms
proof (induction inps arbitrary: st)
  case Nil
  then show ?case by simp
next
  case (Cons inp inps)
  obtain plist drawn nxt where mc: "main_cycle ps rows st inp = (plist, drawn, nxt)"
    by (cases "main_cycle ps rows st inp") auto
  show ?case
  proof (cases nxt)
    case None
    with mc Cons.prems show ?thesis by simp
  next
    case (Some st')
    with mc Cons.prems have "0 \<le> offset st'"
      by (auto dest: main_cycle_offset_nonneg)
    from Cons.IH [OF this] mc Some Cons.prems show ?thesis
      by (auto split: prod.splits)
  qed
qed

lemma length_insert_by [simp]: "length (insert_by lt x xs) = Suc (length xs)"
  by (induction xs) auto

lemma length_sort_by [simp]: "length (sort_by lt xs) = length xs"
  by (induction xs) (auto simp: sort_by_def)

lemma length_rank [simp]: "length (rank by_cpu plist) = length plist"
  by (simp add: rank_def)

lemma length_build_plist [simp]: "length (build_plist procs) = length procs"
  by (simp add: build_plist_def)

lemma main_cycle_shape:
  obtains plist drawn where
    "main_cycle ps rows st inp =
       (plist, drawn,
        map_option (\<lambda>(by_cpu, off).
            \<lparr>prev_snap = cur_snap_in inp,
             prev_procs = compute_cpu_mem_percent ps (cur_procs_in inp) (prev_procs st)
                            (cur_snap_in inp) (prev_snap st),
             sort_by_cpu = by_cpu, offset = off\<rparr>)
          (handle_key rows (length (cur_procs_in inp)) (ch_in inp) (sort_by_cpu st) (offset st)))"
    and "length plist = length (cur_procs_in inp)"
    and "length drawn = min (nat (rows - 3)) (length (cur_procs_in inp) - nat (offset st))"
proof -
  let ?plist = "rank (sort_by_cpu st) (build_plist (compute_cpu_mem_percent ps (cur_procs_in inp)
      (prev_procs st) (cur_snap_in inp) (prev_snap st)))"
  have len: "length ?plist = length (cur_procs_in inp)"
    by (simp add: build_plist_def)
  show thesis
  proof (rule that [of ?plist "draw_processes ?plist (offset st) (rows - 3)"])
    show "main_cycle ps rows st inp =
       (?plist, draw_processes ?plist (offset st) (rows - 3),
        map_option (\<lambda>(by_cpu, off).
            \<lparr>prev_snap = cur_snap_in inp,
             prev_procs = compute_cpu_mem_percent ps (cur_procs_in inp) (prev_procs st)
                            (cur_snap_in inp) (prev_snap st),
             sort_by_cpu = by_cpu, offset = off\<rparr>)
          (handle_key rows (length (cur_procs_in inp)) (ch_in inp) (sort_by_cpu st) (offset st)))"
      by (simp add: main_cycle_def Let_def build_plist_def split: option.split)
    show "length ?plist = length (cur_procs_in inp)"
      by (rule len)
    show "length (draw_processes ?plist (offset st) (rows - 3)) =
        min (nat (rows - 3)) (length (cur_procs_in inp) - nat (offset st))"
      by (simp add: draw_processes_def build_plist_def min.commute)
  qed
qed

text \<open>
  Claim C7. The offset is only ever compared with the list of the iteration in which a key
  arrives; nothing adjusts it when a later list is shorter. On the three iterations above
  the loop draws with offsets 0, 1 and 2 on lists of 3, 3 and 1 entries: in the third
  iteration the offset 2 is above \<open>max 0 (1 - 1) = 0\<close>, the window starts past the last
  element and no row is drawn. Each tuple is the offset, the length of the ranked list, the
  number of rows drawn, and whether the offset is within the claimed bound.
\<close>

theorem offset_past_end_after_shrink:
  "map (\<lambda>f. (fst f, int (length (fst (snd f))), length (snd (snd f)),
              fst f \<le> max 0 (int (length (fst (snd f))) - (4 - 3))))
     (fst (run_loop 4 4 (initial_state (snapshot_with 1000 1000 1) three_procs) shrink_inputs))
   = [(0, 3, 1, True), (1, 3, 1, True), (2, 1, 0, False)]"
proof -
  let ?st0 = "initial_state (snapshot_with 1000 1000 1) three_procs"
  let ?i1 = "\<lparr>cur_snap_in = snapshot_with 1100 1000 1, cur_procs_in = three_procs,
      ch_in = KEY_DOWN\<rparr>"
  let ?i2 = "\<lparr>cur_snap_in = snapshot_with 1200 1000 1, cur_procs_in = three_procs,
      ch_in = KEY_DOWN\<rparr>"
  let ?i3 = "\<lparr>cur_snap_in = snapshot_with 1300 1000 1, cur_procs_in = [(1, proc_with 1 10 5)],
      ch_in = ERR\<rparr>"
  note keys = handle_key_def KEY_DOWN_def ERR_def
  obtain pl1 dr1 st1 where c1: "main_cycle 4 4 ?st0 ?i1 = (pl1, dr1, Some st1)"
    and l1: "length pl1 = 3" "length dr1 = 1" and s1: "offset st1 = 1"
    by (rule main_cycle_shape [of 4 4 ?st0 ?i1])
      (auto simp: initial_state_def three_procs_def keys)
  obtain pl2 dr2 st2 where c2: "main_cycle 4 4 st1 ?i2 = (pl2, dr2, Some st2)"
    and l2: "length pl2 = 3" "length dr2 = 1" and s2: "offset st2 = 2"
    by (rule main_cycle_shape [of 4 4 st1 ?i2]) (auto simp: three_procs_def keys s1)
  obtain pl3 dr3 st3 where c3: "main_cycle 4 4 st2 ?i3 = (pl3, dr3, Some st3)"
    and l3: "length pl3 = 1" "length dr3 = 0"
    by (rule main_cycle_shape [of 4 4 st2 ?i3]) (auto simp: keys s2)
  have "fst (run_loop 4 4 ?st0 shrink_inputs) =
      [(offset ?st0, pl1, dr1), (offset st1, pl2, dr2), (offset st2, pl3, dr3)]"
    by (simp add: shrink_inputs_def c1 c2 c3)
  then show ?thesis
    by (simp add: l1 l2 l3 s1 s2 initial_state_def)
qed

section \<open>Rounding to double precision\<close>

text \<open>
  Rounding to the nearest integer, ties to even, is monotone and leaves integers alone.
\<close>

lemma round_half_even_of_int [simp]: "round_half_even (of_int n) = n"
  by (simp add: round_half_even_def)

lemma round_half_even_range:
  "\<lfloor>x\<rfloor> \<le> round_half_even x" "round_half_even x \<le> \<lfloor>x\<rfloor> + 1"
  by (simp_all add: round_half_even_def Let_def)

lemma round_half_even_mono:
  assumes "x \<le> y"
  shows "round_half_even x \<le> round_half_even y"
proof (cases "\<lfloor>x\<rfloor> = \<lfloor>y\<rfloor>")
  case True
  then have "x - of_int \<lfloor>x\<rfloor> \<le> y - of_int \<lfloor>y\<rfloor>"
    using assms by simp
  with True show ?thesis
    by (auto simp: round_half_even_def Let_def)
next
  case False
  then have "\<lfloor>x\<rfloor> + 1 \<le> \<lfloor>y\<rfloor>"
    using floor_mono [OF assms] by linarith
  then show ?thesis
    using round_half_even_range(2) [of x] round_half_even_range(1) [of y] by linarith
qed

text \<open>The binade of a non-zero rational brackets its magnitude.\<close>

lemma binade_bounds:
  assumes "x \<noteq> 0"
  shows "2 powi binade x \<le> \<bar>x\<bar>" and "\<bar>x\<bar> < 2 powi (binade x + 1)"
proof -
  obtain a b where q: "quotient_of \<bar>x\<bar> = (a, b)"
    by (cases "quotient_of \<bar>x\<bar>") auto
  then have b: "0 < b" and x: "\<bar>x\<bar> = of_int a / of_int b"
    by (auto dest: quotient_of_denom_pos quotient_of_div)
  have "0 < \<bar>x\<bar>" using assms by simp
  with b x have a: "0 < a"
    by (simp add: zero_less_divide_iff)
  define e where "e = bitlen a - bitlen b"
  have la: "1 \<le> bitlen a" and lb: "1 \<le> bitlen b"
    using a b bitlen_eq_zero_iff [of a] bitlen_eq_zero_iff [of b] bitlen_nonneg [of a]
      bitlen_nonneg [of b] by linarith+
  have pa: "(2::rat) powi (bitlen a - 1) \<le> of_int a" "of_int a < (2::rat) powi bitlen a"
  proof -
    have "2 ^ nat (bitlen a - 1) \<le> a" "a < 2 ^ nat (bitlen a)"
      using bitlen_bounds [OF a] by simp_all
    then have "(of_int (2 ^ nat (bitlen a - 1)) :: rat) \<le> of_int a"
      "(of_int a :: rat) < of_int (2 ^ nat (bitlen a))"
      by (simp_all only: of_int_le_iff of_int_less_iff)
    then show "(2::rat) powi (bitlen a - 1) \<le> of_int a" "of_int a < (2::rat) powi bitlen a"
      using la by (simp_all add: power_int_def)
  qed
  have pb: "(2::rat) powi (bitlen b - 1) \<le> of_int b" "of_int b < (2::rat) powi bitlen b"
  proof -
    have "2 ^ nat (bitlen b - 1) \<le> b" "b < 2 ^ nat (bitlen b)"
      using bitlen_bounds [OF b] by simp_all
    then have "(of_int (2 ^ nat (bitlen b - 1)) :: rat) \<le> of_int b"
      "(of_int b :: rat) < of_int (2 ^ nat (bitlen b))"
      by (simp_all only: of_int_le_iff of_int_less_iff)
    then show "(2::rat) powi (bitlen b - 1) \<le> of_int b" "of_int b < (2::rat) powi bitlen b"
      using lb by (simp_all add: power_int_def)
  qed
  have bpos: "(0::rat) < of_int b" using b by simp
  have lower: "(2::rat) powi (e - 1) \<le> \<bar>x\<bar>"
  proof -
    have "(2::rat) powi (e - 1) * of_int b \<le> 2 powi (e - 1) * 2 powi bitlen b"
      using pb(2) by (intro mult_left_mono) auto
    also have "\<dots> = 2 powi (bitlen a - 1)"
      by (simp add: e_def flip: power_int_add)
    also have "\<dots> \<le> of_int a" by (rule pa(1))
    finally show ?thesis
      using bpos by (simp add: x pos_le_divide_eq)
  qed
  have upper: "\<bar>x\<bar> < (2::rat) powi (e + 1)"
  proof -
    have "of_int a < (2::rat) powi bitlen a" by (rule pa(2))
    also have "\<dots> = 2 powi (e + 1) * 2 powi (bitlen b - 1)"
      by (simp add: e_def flip: power_int_add)
    also have "\<dots> \<le> 2 powi (e + 1) * of_int b"
      using pb(1) by (intro mult_left_mono) auto
    finally show ?thesis
      using bpos by (simp add: x pos_divide_less_eq)
  qed
  have bin: "binade x = (if 2 powi e \<le> \<bar>x\<bar> then e else e - 1)"
    by (simp add: binade_def q e_def Let_def)
  show "2 powi binade x \<le> \<bar>x\<bar>"
    using lower by (simp add: bin)
  show "\<bar>x\<bar> < 2 powi (binade x + 1)"
    using upper by (auto simp: bin not_le)
qed

text \<open>
  Rounding to 53 bits keeps the sign, stays within the binade of its argument, is monotone
  on the non-negative rationals, and is exact on the integers below \<open>2 ^ 53\<close>.
\<close>

lemma fp_round_nonneg:
  assumes "0 \<le> x"
  shows "0 \<le> fp_round x"
proof -
  have "0 \<le> round_half_even (x / 2 powi (binade x - 52))"
    using round_half_even_mono [of 0 "x / 2 powi (binade x - 52)"] assms
      round_half_even_of_int [of 0]
    by simp
  then show ?thesis
    by (simp add: fp_round_def Let_def)
qed

lemma power_int_split52: "(2::rat) powi e = 2 powi 52 * 2 powi (e - 52)"
proof -
  have "(2::rat) powi (52 + (e - 52)) = 2 powi 52 * 2 powi (e - 52)"
    by (rule power_int_add) simp
  moreover have "52 + (e - 52) = e" by simp
  ultimately show ?thesis by (simp only:)
qed

lemma power_int_split53: "(2::rat) powi (e + 1) = 2 powi 53 * 2 powi (e - 52)"
proof -
  have "(2::rat) powi (53 + (e - 52)) = 2 powi 53 * 2 powi (e - 52)"
    by (rule power_int_add) simp
  moreover have "53 + (e - 52) = e + 1" by simp
  ultimately show ?thesis by (simp only:)
qed

lemma fp_round_binade:
  assumes "0 < x"
  shows "2 powi binade x \<le> fp_round x" and "fp_round x \<le> 2 powi (binade x + 1)"
proof -
  define q :: rat where "q = 2 powi (binade x - 52)"
  have q: "0 < q" by (simp add: q_def)
  have x: "x \<noteq> 0" "\<bar>x\<bar> = x" using assms by simp_all
  have "2 powi 52 * q \<le> x"
    using binade_bounds(1) [OF x(1)] x(2) power_int_split52 [of "binade x"] by (simp add: q_def)
  then have "of_int (2 ^ 52) \<le> x / q"
    using q by (simp add: pos_le_divide_eq)
  then have lo: "2 ^ 52 \<le> round_half_even (x / q)"
    using round_half_even_mono [of "of_int (2 ^ 52)" "x / q"] by (simp only: round_half_even_of_int)
  have "x < 2 powi 53 * q"
    using binade_bounds(2) [OF x(1)] x(2) power_int_split53 [of "binade x"] by (simp add: q_def)
  then have "x / q \<le> of_int (2 ^ 53)"
    using q by (simp add: pos_divide_le_eq)
  then have hi: "round_half_even (x / q) \<le> 2 ^ 53"
    using round_half_even_mono [of "x / q" "of_int (2 ^ 53)"] by (simp only: round_half_even_of_int)
  have fr: "fp_round x = of_int (round_half_even (x / q)) * q"
    using x(1) by (simp add: fp_round_def q_def Let_def)
  have "(of_int (2 ^ 52) :: rat) * q \<le> of_int (round_half_even (x / q)) * q"
    using lo q by (intro mult_right_mono) (simp_all only: of_int_le_iff less_imp_le)
  then show "2 powi binade x \<le> fp_round x"
    using power_int_split52 [of "binade x"] by (simp add: fr q_def)
  have "(of_int (round_half_even (x / q)) :: rat) * q \<le> of_int (2 ^ 53) * q"
    using hi q by (intro mult_right_mono) (simp_all only: of_int_le_iff less_imp_le)
  then show "fp_round x \<le> 2 powi (binade x + 1)"
    using power_int_split53 [of "binade x"] by (simp add: fr q_def)
qed

lemma binade_mono:
  assumes "0 < x" and "x \<le> y"
  shows "binade x \<le> binade y"
proof -
  have "2 powi binade x \<le> x" "y < 2 powi (binade y + 1)"
    using binade_bounds(1) [of x] binade_bounds(2) [of y] assms by simp_all
  then have "(2::rat) powi binade x < 2 powi (binade y + 1)"
    using assms(2) by linarith
  then have "binade x < binade y + 1"
    by (metis power_int_increasing [of "binade y + 1" "binade x" "2::rat"] not_le
        one_le_numeral)
  then show ?thesis by simp
qed

lemma fp_round_mono:
  assumes "0 \<le> x" and "x \<le> y"
  shows "fp_round x \<le> fp_round y"
proof (cases "x = 0")
  case True
  then show ?thesis using assms fp_round_nonneg [of y] by simp
next
  case False
  then have x: "0 < x" and y: "0 < y" using assms by simp_all
  show ?thesis
  proof (cases "binade x = binade y")
    case True
    define q :: rat where "q = 2 powi (binade y - 52)"
    have q: "0 < q" by (simp add: q_def)
    have "x / q \<le> y / q"
      using assms(2) q by (simp add: divide_right_mono)
    then have "round_half_even (x / q) \<le> round_half_even (y / q)"
      by (rule round_half_even_mono)
    then have "(of_int (round_half_even (x / q)) :: rat) * q \<le> of_int (round_half_even (y / q)) * q"
      using q by (intro mult_right_mono) (simp_all only: of_int_le_iff less_imp_le)
    then show ?thesis
      using x y True by (simp add: fp_round_def Let_def q_def)
  next
    case False
    then have "binade x + 1 \<le> binade y"
      using binade_mono [OF x assms(2)] by simp
    then have "(2::rat) powi (binade x + 1) \<le> 2 powi binade y"
      by (intro power_int_increasing) simp_all
    then show ?thesis
      using fp_round_binade(2) [OF x] fp_round_binade(1) [OF y] by linarith
  qed
qed

lemma fp_round_of_int:
  assumes "0 \<le> n" and "n < 2 ^ 53"
  shows "fp_round (of_int n) = of_int n"
proof (cases "n = 0")
  case True
  then show ?thesis by simp
next
  case False
  then have n: "(0::rat) < of_int n" using assms(1) by simp
  define e where "e = binade (of_int n)"
  have "(2::rat) powi e \<le> of_int n"
    using binade_bounds(1) [of "of_int n"] n by (simp add: e_def)
  also have "(of_int n :: rat) < of_int (2 ^ 53)"
    using assms(2) by (simp only: of_int_less_iff)
  finally have "(2::rat) powi e < 2 powi 53" by simp
  then have "e < 53"
    by (metis power_int_increasing [of 53 e "2::rat"] not_le one_le_numeral)
  then have k: "0 \<le> 52 - e" by simp
  have q: "(2::rat) powi (e - 52) = 1 / of_int (2 ^ nat (52 - e))"
    using k power_int_minus_divide [of "2::rat" "52 - e"] by (simp add: power_int_def)
  have "of_int n / (2::rat) powi (e - 52) = of_int (n * 2 ^ nat (52 - e))"
    by (simp add: q)
  then have "round_half_even (of_int n / 2 powi (e - 52)) = n * 2 ^ nat (52 - e)"
    by (simp only: round_half_even_of_int)
  then show ?thesis
    using n by (simp add: fp_round_def Let_def q flip: e_def)
qed

section \<open>Bounds on the two percentages\<close>

lemma double_of_int_nonneg: "0 \<le> n \<Longrightarrow> 0 \<le> double_of_int n"
  by (simp add: double_of_int_def fp_round_nonneg)

lemma double_of_int_pos:
  assumes "0 < n"
  shows "0 < double_of_int n"
proof -
  have "(0::rat) < 2 powi binade (of_int n)" by simp
  also have "\<dots> \<le> fp_round (of_int n)"
    using assms by (intro fp_round_binade(1)) simp
  finally show ?thesis by (simp add: double_of_int_def)
qed

lemma double_of_int_mono: "0 \<le> m \<Longrightarrow> m \<le> n \<Longrightarrow> double_of_int m \<le> double_of_int n"
  by (simp add: double_of_int_def fp_round_mono)

lemma fp_round_numerals: "fp_round 1 = 1" "fp_round 100 = 100"
  using fp_round_of_int [of 1] fp_round_of_int [of 100] by simp_all

lemma ratio_percent_bounds:
  assumes "0 \<le> a" and "0 < b"
  shows "0 \<le> dmul (ddiv a b) 100" and "a \<le> b \<Longrightarrow> dmul (ddiv a b) 100 \<le> 100"
proof -
  have "0 \<le> a / b" using assms by simp
  then have r0: "0 \<le> ddiv a b"
    by (simp add: ddiv_def fp_round_nonneg)
  then show "0 \<le> dmul (ddiv a b) 100"
    by (simp add: dmul_def fp_round_nonneg)
  assume "a \<le> b"
  then have "a / b \<le> 1" using assms by simp
  then have "fp_round (a / b) \<le> fp_round 1"
    using \<open>0 \<le> a / b\<close> by (intro fp_round_mono)
  then have "ddiv a b * 100 \<le> 100"
    by (simp add: ddiv_def fp_round_numerals)
  then have "fp_round (ddiv a b * 100) \<le> fp_round 100"
    using r0 by (intro fp_round_mono) simp_all
  then show "dmul (ddiv a b) 100 \<le> 100"
    by (simp add: dmul_def fp_round_numerals)
qed

lemma scale_by_cpus_bounds:
  fixes n :: c_int
  assumes "0 \<le> r" and "0 \<le> sint n"
  shows "0 \<le> dmul r (double_of_int (sint n))"
    and "r \<le> 100 \<Longrightarrow> dmul r (double_of_int (sint n)) \<le> 100 * of_int (sint n)"
proof -
  have "sint n < 2 ^ 31"
    using sint_lt [of n] by simp
  then have small: "sint n < 2 ^ 53" "100 * sint n < 2 ^ 53" by simp_all
  have n: "double_of_int (sint n) = of_int (sint n)"
    using assms(2) small(1) by (simp add: double_of_int_def fp_round_of_int del: of_int_sint)
  have nn: "(0::rat) \<le> of_int (sint n)" using assms(2) by (simp del: of_int_sint)
  have prod: "0 \<le> r * of_int (sint n)"
    using assms(1) nn by simp
  then show "0 \<le> dmul r (double_of_int (sint n))"
    by (simp add: dmul_def n fp_round_nonneg)
  assume "r \<le> 100"
  then have "r * of_int (sint n) \<le> of_int (100 * sint n)"
    using nn by (simp add: mult_right_mono)
  then have "fp_round (r * of_int (sint n)) \<le> fp_round (of_int (100 * sint n))"
    using prod by (intro fp_round_mono)
  also have "\<dots> = of_int (100 * sint n)"
    using assms(2) small(2) by (intro fp_round_of_int) simp_all
  finally show "dmul r (double_of_int (sint n)) \<le> 100 * of_int (sint n)"
    by (simp add: dmul_def n)
qed

text \<open>
  Claim C2, as amended. For a snapshot whose CPU count is not negative (the sampler gives at
  least 1), \<open>cpu_percent\<close> of every entry is at least 0, whatever the tick counters are,
  also when they went back. It is at most 100 times the CPU count when the process's tick
  difference does not exceed the system's tick difference; the source has no clamp that
  would enforce this otherwise. \<open>mem_percent\<close> is at least 0 when the resident size in
  KB is not negative, and at most 100 when that size does not exceed the total memory.
\<close>

theorem percent_bounds:
  assumes "i < length procs" and "procs ! i = (key, p)" and "0 \<le> sint (num_cpus cs)"
  shows "0 \<le> cpu_percent (snd (compute_cpu_mem_percent ps procs prev cs pvs ! i))
    \<and> ((\<forall>it. map_of prev key = Some it \<longrightarrow>
           uint (total_time p) - uint (total_time it)
             \<le> uint (total_jiffies cs) - uint (total_jiffies pvs)) \<longrightarrow>
        cpu_percent (snd (compute_cpu_mem_percent ps procs prev cs pvs ! i))
          \<le> 100 * of_int (sint (num_cpus cs)))
    \<and> (0 \<le> sint (rss p * ps) \<longrightarrow>
        0 \<le> mem_percent (snd (compute_cpu_mem_percent ps procs prev cs pvs ! i)))
    \<and> (0 \<le> sint (rss p * ps) \<and> sint (rss p * ps) \<le> uint (mem_total_kb cs) \<longrightarrow>
        mem_percent (snd (compute_cpu_mem_percent ps procs prev cs pvs ! i)) \<le> 100)"
proof -
  let ?td = "total_diff_of cs pvs"
  let ?e = "account_entry ps prev cs ?td key p"
  have out: "snd (compute_cpu_mem_percent ps procs prev cs pvs ! i) = ?e"
    using assms(1,2) by (simp add: compute_nth)
  have cpus: "(0::rat) \<le> 100 * of_int (sint (num_cpus cs))"
    using assms(3) by (simp del: of_int_sint)
  have cpu_lo: "0 \<le> cpu_percent ?e"
  proof (cases "map_of prev key")
    case None
    then show ?thesis by (simp add: cpu_percent_account_entry)
  next
    case (Some it)
    show ?thesis
    proof (cases "0 < ?td")
      case True
      then have "0 < uint ?td" by (simp add: word_less_def)
      then have "0 \<le> dmul (ddiv (double_of_int (max 0 (uint (total_time p) - uint (total_time it))))
          (double_of_int (uint ?td))) 100"
        by (intro ratio_percent_bounds(1) double_of_int_nonneg double_of_int_pos) simp_all
      then show ?thesis
        using Some True assms(3)
        by (simp add: cpu_percent_account_entry uint_clamped_diff scale_by_cpus_bounds(1))
    next
      case False
      then show ?thesis using Some by (simp add: cpu_percent_account_entry)
    qed
  qed
  have cpu_hi: "cpu_percent ?e \<le> 100 * of_int (sint (num_cpus cs))"
    if small: "\<forall>it. map_of prev key = Some it \<longrightarrow>
           uint (total_time p) - uint (total_time it)
             \<le> uint (total_jiffies cs) - uint (total_jiffies pvs)"
  proof (cases "map_of prev key")
    case None
    then show ?thesis using cpus by (simp add: cpu_percent_account_entry)
  next
    case (Some it)
    show ?thesis
    proof (cases "0 < ?td")
      case True
      then have td: "0 < uint ?td" by (simp add: word_less_def)
      let ?d = "max 0 (uint (total_time p) - uint (total_time it))"
      have "?d \<le> uint ?td"
        using small Some td by (simp add: uint_total_diff_of)
      then have le: "double_of_int ?d \<le> double_of_int (uint ?td)"
        by (intro double_of_int_mono) simp_all
      have "0 \<le> dmul (ddiv (double_of_int ?d) (double_of_int (uint ?td))) 100"
        using td by (intro ratio_percent_bounds(1) double_of_int_nonneg double_of_int_pos) simp_all
      moreover have "dmul (ddiv (double_of_int ?d) (double_of_int (uint ?td))) 100 \<le> 100"
        using td le
        by (intro ratio_percent_bounds(2) double_of_int_nonneg double_of_int_pos) simp_all
      ultimately show ?thesis
        using Some True assms(3)
        by (simp add: cpu_percent_account_entry uint_clamped_diff scale_by_cpus_bounds(2)
            del: of_int_sint)
    next
      case False
      then show ?thesis using Some cpus by (simp add: cpu_percent_account_entry)
    qed
  qed
  have mem_lo: "0 \<le> mem_percent ?e" if "0 \<le> sint (rss p * ps)"
  proof (cases "0 < mem_total_kb cs")
    case True
    then have "0 < uint (mem_total_kb cs)" by (simp add: word_less_def)
    then show ?thesis
      using that True
      by (simp add: mem_percent_account_entry ratio_percent_bounds(1) double_of_int_nonneg
          double_of_int_pos)
  next
    case False
    then show ?thesis by (simp add: mem_percent_account_entry)
  qed
  have mem_hi: "mem_percent ?e \<le> 100"
    if "0 \<le> sint (rss p * ps)" "sint (rss p * ps) \<le> uint (mem_total_kb cs)"
  proof (cases "0 < mem_total_kb cs")
    case True
    then have "0 < uint (mem_total_kb cs)" by (simp add: word_less_def)
    then show ?thesis
      using that True
      by (simp add: mem_percent_account_entry ratio_percent_bounds(2) double_of_int_nonneg
          double_of_int_pos double_of_int_mono)
  next
    case False
    then show ?thesis by (simp add: mem_percent_account_entry)
  qed
  show ?thesis
    using cpu_lo cpu_hi mem_lo mem_hi by (simp only: out) blast
qed

theorem percent_bounds_witness:
  "0 \<le> sint (num_cpus (snapshot_with 1100 1000 2))
   \<and> 0 \<le> cpu_percent (snd (compute_cpu_mem_percent 4 [(7, proc_with 7 80 25)]
         [(7, proc_with 7 50 25)] (snapshot_with 1100 1000 2) (snapshot_with 1000 1000 2) ! 0))
   \<and> cpu_percent (snd (compute_cpu_mem_percent 4 [(7, proc_with 7 80 25)]
         [(7, proc_with 7 50 25)] (snapshot_with 1100 1000 2) (snapshot_with 1000 1000 2) ! 0))
       \<le> 100 * of_int (sint (num_cpus (snapshot_with 1100 1000 2)))
   \<and> 0 \<le> mem_percent (snd (compute_cpu_mem_percent 4 [(7, proc_with 7 80 25)]
         [(7, proc_with 7 50 25)] (snapshot_with 1100 1000 2) (snapshot_with 1000 1000 2) ! 0))
   \<and> mem_percent (snd (compute_cpu_mem_percent 4 [(7, proc_with 7 80 25)]
         [(7, proc_with 7 50 25)] (snapshot_with 1100 1000 2) (snapshot_with 1000 1000 2) ! 0))
       \<le> 100"
proof -
  have cpus: "0 \<le> sint (num_cpus (snapshot_with 1100 1000 2))"
    by (simp add: snapshot_with_def)
  have ticks: "\<forall>it. map_of [(7 :: c_int, proc_with 7 50 25)] 7 = Some it \<longrightarrow>
      uint (total_time (proc_with 7 80 25)) - uint (total_time it)
        \<le> uint (total_jiffies (snapshot_with 1100 1000 2))
            - uint (total_jiffies (snapshot_with 1000 1000 2))"
    by (simp add: proc_with_def snapshot_with_def)
  have kb: "0 \<le> sint (rss (proc_with 7 80 25) * (4 :: c_long))"
    "sint (rss (proc_with 7 80 25) * (4 :: c_long)) \<le> uint (mem_total_kb (snapshot_with 1100 1000 2))"
    by (simp_all add: proc_with_def snapshot_with_def)
  show ?thesis
    using percent_bounds [of 0 "[(7, proc_with 7 80 25)]" 7 "proc_with 7 80 25"
        "snapshot_with 1100 1000 2" 4 "[(7, proc_with 7 50 25)]" "snapshot_with 1000 1000 2",
        OF _ _ cpus] ticks kb cpus
    by simp
qed

text \<open>
  The claim as stated fails. Process 7 used 300 ticks while the system total advanced by
  100 (the counter includes the time of reaped children, which arrives all at once) and has
  500 resident pages of 4 KB with 1000 KB of total memory: its \<open>cpu_percent\<close> is 300 on
  one CPU and its \<open>mem_percent\<close> is 200. Process 9 has a resident page count of -1, a
  value of the field's type \<^verbatim>\<open>long\<close>: its \<open>mem_percent\<close> is negative.
\<close>

theorem percent_upper_bounds_counterexample:
  "\<not> cpu_percent (snd (compute_cpu_mem_percent 4
          [(7, proc_with 7 300 500), (9, proc_with 9 0 (- 1))] [(7, proc_with 7 0 500)]
          (snapshot_with 1100 1000 1) (snapshot_with 1000 1000 1) ! 0))
        \<le> 100 * of_int (sint (num_cpus (snapshot_with 1100 1000 1)))
   \<and> \<not> mem_percent (snd (compute_cpu_mem_percent 4
          [(7, proc_with 7 300 500), (9, proc_with 9 0 (- 1))] [(7, proc_with 7 0 500)]
          (snapshot_with 1100 1000 1) (snapshot_with 1000 1000 1) ! 0)) \<le> 100
   \<and> \<not> 0 \<le> mem_percent (snd (compute_cpu_mem_percent 4
          [(7, proc_with 7 300 500), (9, proc_with 9 0 (- 1))] [(7, proc_with 7 0 500)]
          (snapshot_with 1100 1000 1) (snapshot_with 1000 1000 1) ! 1))"
proof -
  let ?out = "compute_cpu_mem_percent 4
          [(7, proc_with 7 300 500), (9, proc_with 9 0 (- 1))] [(7, proc_with 7 0 500)]
          (snapshot_with 1100 1000 1) (snapshot_with 1000 1000 1)"
  have cpu: "cpu_percent (snd (?out ! 0)) = 300"
    by code_simp
  have mem: "mem_percent (snd (?out ! 0)) = 200"
    by code_simp
  have neg: "mem_percent (snd (?out ! 1)) < 0"
    by code_simp
  have cpus: "sint (num_cpus (snapshot_with 1100 1000 1)) = 1"
    by (simp add: snapshot_with_def)
  show ?thesis
    using neg by (simp only: cpu mem cpus) simp
qed

section \<open>The accountant stays in the normal range of binary64\<close>

text \<open>
  Rounding is symmetric, exact on powers of two, and keeps a magnitude between the powers
  of two that bracket it.
\<close>

lemma round_half_even_minus: "round_half_even (- x) = - round_half_even x"
proof (cases "x = of_int \<lfloor>x\<rfloor>")
  case True
  then obtain n where "x = of_int n" ..
  then have "- x = of_int (- n)" by simp
  then show ?thesis
    using \<open>x = of_int n\<close> by (simp only: round_half_even_of_int)
next
  case False
  then have fl: "\<lfloor>- x\<rfloor> = - \<lfloor>x\<rfloor> - 1"
    by (metis ceiling_def ceiling_altdef minus_diff_eq minus_minus uminus_add_conv_diff)
  have r: "0 < x - of_int \<lfloor>x\<rfloor>" "x - of_int \<lfloor>x\<rfloor> < 1"
    using False by linarith+
  show ?thesis
    using r by (auto simp: round_half_even_def Let_def fl)
qed


lemma pow2_le_iff: "(2::rat) powi m \<le> 2 powi n \<longleftrightarrow> m \<le> n"
proof
  assume le: "(2::rat) powi m \<le> 2 powi n"
  show "m \<le> n"
  proof (rule ccontr)
    assume "\<not> m \<le> n"
    then have "(2::rat) powi n < 2 powi m"
      by (intro power_int_strict_increasing) simp_all
    with le show False by simp
  qed
next
  assume "m \<le> n"
  then show "(2::rat) powi m \<le> 2 powi n"
    by (intro power_int_increasing) simp_all
qed

lemma pow2_less_iff: "(2::rat) powi m < 2 powi n \<longleftrightarrow> m < n"
  using pow2_le_iff [of n m] by (simp add: not_le [symmetric])

lemma binade_minus [simp]: "binade (- x) = binade x"
  by (simp add: binade_def)

lemma fp_round_minus: "fp_round (- x) = - fp_round x"
  by (simp add: fp_round_def Let_def round_half_even_minus)

lemma fp_round_abs: "\<bar>fp_round x\<bar> = fp_round \<bar>x\<bar>"
proof (cases "0 \<le> x")
  case True
  then show ?thesis by (simp add: fp_round_nonneg)
next
  case False
  then have "0 \<le> fp_round (- x)" by (intro fp_round_nonneg) simp
  then show ?thesis using False by (simp add: fp_round_minus)
qed

lemma fp_round_power_of_two: "fp_round (2 powi k) = 2 powi k"
proof -
  have pos: "(0::rat) < 2 powi k" by simp
  have "(2::rat) powi binade (2 powi k) \<le> 2 powi k" "(2::rat) powi k < 2 powi (binade (2 powi k) + 1)"
    using binade_bounds [of "2 powi k"] pos by simp_all
  then have "binade (2 powi k) \<le> k" "k < binade (2 powi k) + 1"
    by (simp_all only: pow2_le_iff pow2_less_iff)
  then have e: "binade (2 powi k) = k" by simp
  have "(2::rat) powi (k - (k - 52)) = 2 powi k / 2 powi (k - 52)"
    by (rule power_int_diff) simp
  then have "(2::rat) powi k / 2 powi (k - 52) = of_int (2 ^ 52)"
    by simp
  then have r: "round_half_even (2 powi k / 2 powi (k - 52)) = 2 ^ 52"
    by (simp only: round_half_even_of_int)
  have "fp_round (2 powi k) =
      of_int (round_half_even (2 powi k / 2 powi (k - 52))) * 2 powi (k - 52)"
    by (simp add: fp_round_def Let_def e)
  also have "\<dots> = 2 powi 52 * 2 powi (k - 52)"
    by (simp only: r) simp
  also have "\<dots> = 2 powi k"
    by (rule power_int_split52 [symmetric])
  finally show ?thesis .
qed

lemma magnitude_within_fp_round:
  assumes "magnitude_within a b x"
  shows "magnitude_within a b (fp_round x)"
proof (cases "x = 0")
  case True
  then show ?thesis by (simp add: magnitude_within_def)
next
  case False
  then have lo: "2 powi a \<le> \<bar>x\<bar>" and hi: "\<bar>x\<bar> \<le> 2 powi b"
    using assms by (simp_all add: magnitude_within_def)
  have "fp_round (2 powi a) \<le> fp_round \<bar>x\<bar>"
    using lo by (intro fp_round_mono) simp_all
  moreover have "fp_round \<bar>x\<bar> \<le> fp_round (2 powi b)"
    using hi by (intro fp_round_mono) simp_all
  ultimately show ?thesis
    by (simp add: magnitude_within_def fp_round_abs fp_round_power_of_two)
qed

lemma magnitude_within_mult:
  assumes "magnitude_within a b x" and "magnitude_within c d y"
  shows "magnitude_within (a + c) (b + d) (x * y)"
proof (cases "x = 0 \<or> y = 0")
  case True
  then show ?thesis by (auto simp: magnitude_within_def)
next
  case False
  then have x: "2 powi a \<le> \<bar>x\<bar>" "\<bar>x\<bar> \<le> 2 powi b" and y: "2 powi c \<le> \<bar>y\<bar>" "\<bar>y\<bar> \<le> 2 powi d"
    using assms by (simp_all add: magnitude_within_def)
  have "(2::rat) powi a * 2 powi c \<le> \<bar>x\<bar> * \<bar>y\<bar>"
    using x(1) y(1) by (intro mult_mono) simp_all
  moreover have "\<bar>x\<bar> * \<bar>y\<bar> \<le> 2 powi b * 2 powi d"
    using x(2) y(2) by (intro mult_mono) simp_all
  ultimately show ?thesis
    by (simp add: magnitude_within_def abs_mult power_int_add)
qed

lemma magnitude_within_divide:
  assumes "magnitude_within a b x" and "magnitude_within c d y" and "y \<noteq> 0"
  shows "magnitude_within (a - d) (b - c) (x / y)"
proof -
  have y: "2 powi c \<le> \<bar>y\<bar>" "\<bar>y\<bar> \<le> 2 powi d" "0 < \<bar>y\<bar>"
    using assms(2,3) by (simp_all add: magnitude_within_def)
  have "(2::rat) powi (- d) \<le> inverse \<bar>y\<bar>"
    using y(2,3) by (simp add: power_int_minus le_imp_inverse_le)
  moreover have "inverse \<bar>y\<bar> \<le> (2::rat) powi (- c)"
    using y(1) by (simp add: power_int_minus le_imp_inverse_le)
  ultimately have "magnitude_within (- d) (- c) (inverse y)"
    using assms(3) by (simp add: magnitude_within_def)
  from magnitude_within_mult [OF assms(1) this] show ?thesis
    by (simp add: divide_inverse)
qed

lemma magnitude_within_of_int:
  assumes "\<bar>n\<bar> \<le> 2 ^ k"
  shows "magnitude_within 0 (int k) (of_int n)"
proof (cases "n = 0")
  case True
  then show ?thesis by (simp add: magnitude_within_def)
next
  case False
  then have "1 \<le> \<bar>n\<bar>" by simp
  then have "(1::rat) \<le> \<bar>of_int n\<bar>"
    by (metis of_int_1 of_int_abs of_int_le_iff)
  moreover have "\<bar>of_int n :: rat\<bar> \<le> of_int (2 ^ k)"
    using assms by (metis of_int_abs of_int_le_iff)
  ultimately show ?thesis
    by (simp add: magnitude_within_def)
qed

lemma magnitude_within_normal:
  assumes "magnitude_within a b x" and "- 1022 \<le> a" and "b < 1023"
  shows "binary64_normal x"
proof (cases "x = 0")
  case True
  then show ?thesis by (simp add: binary64_normal_def)
next
  case False
  then have "2 powi a \<le> \<bar>x\<bar>" "\<bar>x\<bar> \<le> 2 powi b"
    using assms(1) by (simp_all add: magnitude_within_def)
  moreover have "(2::rat) powi (- 1022) \<le> 2 powi a"
    using assms(2) by (intro power_int_increasing) simp_all
  moreover have "(2::rat) powi b < 2 powi 1023"
    using assms(3) by (intro power_int_strict_increasing) simp_all
  ultimately show ?thesis
    unfolding binary64_normal_def by linarith
qed

text \<open>
  Every exact value that \<^verbatim>\<open>compute_cpu_mem_percent\<close> converts or rounds, on the CPU
  path (when the total tick difference is positive) and on the memory path (when the total
  memory is positive), is 0 or normal in binary64.
\<close>

lemma magnitude_within_uint64: "magnitude_within 0 64 (of_int (uint (w :: 64 word)))"
proof -
  have "\<bar>uint w\<bar> \<le> 2 ^ 64"
    using uint_lt2p [of w] by simp
  from magnitude_within_of_int [OF this] show ?thesis by simp
qed

lemma magnitude_within_sint64: "magnitude_within 0 63 (of_int (sint (w :: 64 word)))"
proof -
  have "\<bar>sint w\<bar> \<le> 2 ^ 63"
    using sint_ge [of w] sint_lt [of w] by simp
  from magnitude_within_of_int [OF this] show ?thesis by simp
qed

lemma magnitude_within_sint32: "magnitude_within 0 31 (of_int (sint (w :: 32 word)))"
proof -
  have "\<bar>sint w\<bar> \<le> 2 ^ 31"
    using sint_ge [of w] sint_lt [of w] by simp
  from magnitude_within_of_int [OF this] show ?thesis by simp
qed

lemma magnitude_within_100: "magnitude_within 6 7 100"
  by (simp add: magnitude_within_def)

lemma double_of_uint_nonzero:
  fixes w :: "64 word"
  assumes "0 < w"
  shows "double_of_int (uint w) \<noteq> 0"
proof -
  have "0 < uint w" using assms by (simp add: word_less_def)
  from double_of_int_pos [OF this] show ?thesis by simp
qed

lemma cpu_path_binary64_normal:
  fixes diff td :: c_ullong and n :: c_int
  assumes "0 < td"
  shows "binary64_normal (of_int (uint diff)) \<and> binary64_normal (of_int (uint td))
    \<and> binary64_normal (of_int (sint n))
    \<and> binary64_normal (double_of_int (uint diff) / double_of_int (uint td))
    \<and> binary64_normal (ddiv (double_of_int (uint diff)) (double_of_int (uint td)) * 100)
    \<and> binary64_normal (dmul (ddiv (double_of_int (uint diff)) (double_of_int (uint td))) 100
          * double_of_int (sint n))"
proof -
  let ?a = "double_of_int (uint diff)" and ?b = "double_of_int (uint td)"
  have a: "magnitude_within 0 64 ?a" and b: "magnitude_within 0 64 ?b"
    and c: "magnitude_within 0 31 (double_of_int (sint n))"
    unfolding double_of_int_def
    by (intro magnitude_within_fp_round magnitude_within_uint64 magnitude_within_sint32)+
  have q: "magnitude_within (0 - 64) (64 - 0) (?a / ?b)"
    using a b double_of_uint_nonzero [OF assms] by (rule magnitude_within_divide)
  then have "magnitude_within (0 - 64) (64 - 0) (ddiv ?a ?b)"
    unfolding ddiv_def by (rule magnitude_within_fp_round)
  then have s: "magnitude_within (0 - 64 + 6) (64 - 0 + 7) (ddiv ?a ?b * 100)"
    using magnitude_within_100 by (rule magnitude_within_mult)
  then have "magnitude_within (0 - 64 + 6) (64 - 0 + 7) (dmul (ddiv ?a ?b) 100)"
    unfolding dmul_def by (rule magnitude_within_fp_round)
  then have t: "magnitude_within (0 - 64 + 6 + 0) (64 - 0 + 7 + 31)
      (dmul (ddiv ?a ?b) 100 * double_of_int (sint n))"
    using c by (rule magnitude_within_mult)
  show ?thesis
    using magnitude_within_normal [OF magnitude_within_uint64 [of diff]]
      magnitude_within_normal [OF magnitude_within_uint64 [of td]]
      magnitude_within_normal [OF magnitude_within_sint32 [of n]]
      magnitude_within_normal [OF q] magnitude_within_normal [OF s]
      magnitude_within_normal [OF t]
    by (simp del: of_int_sint of_int_uint)
qed

lemma mem_path_binary64_normal:
  fixes rss_kb :: c_long and total :: c_ulong
  assumes "0 < total"
  shows "binary64_normal (of_int (sint rss_kb)) \<and> binary64_normal (of_int (uint total))
    \<and> binary64_normal (double_of_int (sint rss_kb) / double_of_int (uint total))
    \<and> binary64_normal (ddiv (double_of_int (sint rss_kb)) (double_of_int (uint total)) * 100)"
proof -
  let ?a = "double_of_int (sint rss_kb)" and ?b = "double_of_int (uint total)"
  have a: "magnitude_within 0 63 ?a" and b: "magnitude_within 0 64 ?b"
    unfolding double_of_int_def
    by (intro magnitude_within_fp_round magnitude_within_uint64 magnitude_within_sint64)+
  have q: "magnitude_within (0 - 64) (63 - 0) (?a / ?b)"
    using a b double_of_uint_nonzero [OF assms] by (rule magnitude_within_divide)
  then have "magnitude_within (0 - 64) (63 - 0) (ddiv ?a ?b)"
    unfolding ddiv_def by (rule magnitude_within_fp_round)
  then have s: "magnitude_within (0 - 64 + 6) (63 - 0 + 7) (ddiv ?a ?b * 100)"
    using magnitude_within_100 by (rule magnitude_within_mult)
  show ?thesis
    using magnitude_within_normal [OF magnitude_within_sint64 [of rss_kb]]
      magnitude_within_normal [OF magnitude_within_uint64 [of total]]
      magnitude_within_normal [OF q] magnitude_within_normal [OF s]
    by (simp del: of_int_sint of_int_uint)
qed

end
